theory Spec2Isabelle
  imports Complex_Main "HOL-Library.Multiset" "HOL-Library.Sublist"
begin

section \<open>Strings\<close>

text \<open>
  A Python \<open>str\<close> is modelled as a \<open>string\<close>: a list of characters, each character a
  code point below 256. \<open>text[a:b]\<close> with non-negative bounds is \<open>py_slice\<close>,
  \<open>text[:a]\<close> is \<open>take a text\<close>, and \<open>s.endswith(suf)\<close> is \<open>endswith\<close>.
\<close>

definition py_slice :: "string \<Rightarrow> nat \<Rightarrow> nat \<Rightarrow> string" where
  "py_slice s a b = take (b - a) (drop a s)"

definition endswith :: "string \<Rightarrow> string \<Rightarrow> bool" where
  "endswith s suf \<longleftrightarrow> length suf \<le> length s \<and> drop (length s - length suf) s = suf"

text \<open>The marker \<open>"\\boxed"\<close> of the source: a backslash followed by \<open>boxed\<close>.\<close>

definition boxed_marker :: string where
  "boxed_marker = CHR 0x5C # ''boxed''"

section \<open>The regular expression of the brace-less fallback\<close>

text \<open>
  \<open>re.search(r"\\boxed\s+([a-zA-Z0-9]+)", text)\<close> returns the leftmost match. The classes
  \<open>\s\<close> and \<open>[a-zA-Z0-9]\<close> are disjoint, so at a given start the greedy runs are the only
  way to match: the marker, a non-empty maximal run of whitespace, a non-empty maximal run
  of alphanumerics, which is group 1. For a \<open>str\<close> pattern \<open>\s\<close> is Unicode whitespace;
  below 256 these are the code points 9 to 13, 28 to 32, 133 and 160.
\<close>

definition is_space :: "char \<Rightarrow> bool" where
  "is_space c \<longleftrightarrow> (let n = (of_char c :: nat) in
     (9 \<le> n \<and> n \<le> 13) \<or> (28 \<le> n \<and> n \<le> 32) \<or> n = 133 \<or> n = 160)"

definition is_alnum :: "char \<Rightarrow> bool" where
  "is_alnum c \<longleftrightarrow> (let n = (of_char c :: nat) in
     (97 \<le> n \<and> n \<le> 122) \<or> (65 \<le> n \<and> n \<le> 90) \<or> (48 \<le> n \<and> n \<le> 57))"

definition re_match_here :: "string \<Rightarrow> string option" where
  "re_match_here s =
     (if prefix boxed_marker s then
        (let rest = drop (length boxed_marker) s;
             ws = takeWhile is_space rest;
             tok = takeWhile is_alnum (dropWhile is_space rest)
         in if ws \<noteq> [] \<and> tok \<noteq> [] then Some tok else None)
      else None)"

fun re_search_boxed :: "string \<Rightarrow> string option" where
  "re_search_boxed [] = None"
| "re_search_boxed (c # cs) =
     (case re_match_here (c # cs) of
        Some tok \<Rightarrow> Some tok
      | None \<Rightarrow> re_search_boxed cs)"

text \<open>
  What a match of the pattern is, said without the search: at position \<open>p\<close> stand the
  marker, a non-empty run of whitespace and the non-empty alphanumeric token \<open>tok\<close>,
  which ends where the text ends or a character that is not alphanumeric follows.
\<close>

definition re_match_at :: "string \<Rightarrow> nat \<Rightarrow> string \<Rightarrow> bool" where
  "re_match_at text p tok \<longleftrightarrow>
     (\<exists>ws rest.
        drop p text = boxed_marker @ ws @ tok @ rest \<and>
        ws \<noteq> [] \<and> (\<forall>c\<in>set ws. is_space c) \<and>
        tok \<noteq> [] \<and> (\<forall>c\<in>set tok. is_alnum c) \<and>
        (rest = [] \<or> \<not> is_alnum (hd rest)))"

section \<open>extract_boxed\<close>

text \<open>
  The loop \<open>for ichar in range(len(text))\<close> of \<open>extract_boxed\<close>, from index \<open>ichar\<close> on,
  with the two lists it updates. \<open>stack\<close> is the Python list: \<open>append\<close> adds at the end and
  \<open>pop\<close> removes the last element. The result \<open>None\<close> is the \<open>return ""\<close> inside the loop;
  \<open>Some boxed_strs\<close> is the list of candidates when the loop runs to its end.
\<close>

function scan_from :: "string \<Rightarrow> nat \<Rightarrow> nat list \<Rightarrow> string list \<Rightarrow> string list option" where
  "scan_from text ichar stack boxed_strs =
     (if ichar < length text then
        (if text ! ichar = CHR ''{'' then
           scan_from text (Suc ichar) (stack @ [ichar]) boxed_strs
         else if text ! ichar = CHR ''}'' then
           (if length stack = 0 then None
            else
              (let last_open_start = last stack;
                   stack' = butlast stack
               in if endswith (take last_open_start text) boxed_marker
                  then scan_from text (Suc ichar) stack'
                         (boxed_strs @ [py_slice text (last_open_start + 1) ichar])
                  else scan_from text (Suc ichar) stack' boxed_strs))
         else scan_from text (Suc ichar) stack boxed_strs)
      else Some boxed_strs)"
  by pat_completeness auto
termination
  by (relation "measure (\<lambda>(text, ichar, stack, boxed_strs). length text - ichar)") auto

declare scan_from.simps [simp del]

definition extract_boxed :: "string \<Rightarrow> string" where
  "extract_boxed text =
     (case scan_from text 0 [] [] of
        None \<Rightarrow> ''''
      | Some boxed_strs \<Rightarrow>
          (if length boxed_strs > 0 then last boxed_strs
           else (case re_search_boxed text of
                   Some tok \<Rightarrow> tok
                 | None \<Rightarrow> '''')))"


section \<open>Braces, as the specification speaks of them\<close>

text \<open>
  The scan is described by brace counts alone. \<open>brace_excess s\<close> is the number of opening
  braces of \<open>s\<close> minus the number of closing ones. A text has no unmatched closing brace
  when no prefix closes more braces than it opens, and is balanced when moreover it opens as
  many as it closes. The braces at \<open>i\<close> and \<open>j\<close> match when the text strictly between
  them is balanced; a boxed pair is a matching pair whose opening brace directly follows the
  marker.
\<close>

definition brace_delta :: "char \<Rightarrow> int" where
  "brace_delta c = (if c = CHR ''{'' then 1 else if c = CHR ''}'' then - 1 else 0)"

fun brace_excess :: "string \<Rightarrow> int" where
  "brace_excess [] = 0"
| "brace_excess (c # cs) = brace_delta c + brace_excess cs"

definition no_unmatched_close :: "string \<Rightarrow> bool" where
  "no_unmatched_close s \<longleftrightarrow> (\<forall>k\<in>{0..length s}. 0 \<le> brace_excess (take k s))"

definition balanced :: "string \<Rightarrow> bool" where
  "balanced s \<longleftrightarrow> no_unmatched_close s \<and> brace_excess s = 0"

definition matched :: "string \<Rightarrow> nat \<Rightarrow> nat \<Rightarrow> bool" where
  "matched text i j \<longleftrightarrow>
     i < j \<and> j < length text \<and> text ! i = CHR ''{'' \<and> text ! j = CHR ''}'' \<and>
     balanced (py_slice text (i + 1) j)"

definition boxed_pair :: "string \<Rightarrow> nat \<Rightarrow> nat \<Rightarrow> bool" where
  "boxed_pair text i j \<longleftrightarrow> matched text i j \<and> endswith (take i text) boxed_marker"

text \<open>
  The invariant of the scan after \<open>n\<close> characters. The stack lists, from the bottom, the
  opening braces still open, with balanced text between them; the candidates end with the
  content of the boxed pair closed last.
\<close>

fun open_chain :: "string \<Rightarrow> nat \<Rightarrow> nat list \<Rightarrow> nat \<Rightarrow> bool" where
  "open_chain text lo [] n \<longleftrightarrow> lo \<le> n \<and> balanced (py_slice text lo n)"
| "open_chain text lo (k # ks) n \<longleftrightarrow>
     lo \<le> k \<and> k < n \<and> text ! k = CHR ''{'' \<and> balanced (py_slice text lo k) \<and>
     open_chain text (Suc k) ks n"

definition boxed_inv :: "string \<Rightarrow> nat \<Rightarrow> string list \<Rightarrow> bool" where
  "boxed_inv text n boxed_strs \<longleftrightarrow>
     (if boxed_strs = [] then (\<forall>i j. j < n \<longrightarrow> \<not> boxed_pair text i j)
      else (\<exists>i j. j < n \<and> boxed_pair text i j \<and> last boxed_strs = py_slice text (i + 1) j \<and>
              (\<forall>i' j'. j' < n \<and> boxed_pair text i' j' \<longrightarrow> j' \<le> j)))"

definition scan_inv :: "string \<Rightarrow> nat \<Rightarrow> nat list \<Rightarrow> string list \<Rightarrow> bool" where
  "scan_inv text n stack boxed_strs \<longleftrightarrow>
     n \<le> length text \<and> open_chain text 0 stack n \<and> boxed_inv text n boxed_strs"

text \<open>
  The same test as a single pass over the text with the current depth, for evaluation on
  concrete texts.
\<close>

fun depth_ok :: "int \<Rightarrow> string \<Rightarrow> bool" where
  "depth_ok d [] \<longleftrightarrow> True"
| "depth_ok d (c # cs) \<longleftrightarrow> 0 \<le> d + brace_delta c \<and> depth_ok (d + brace_delta c) cs"

text \<open>A text with two boxed answers, the second with nested braces.\<close>

definition two_boxes :: string where
  "two_boxes = CHR 0x5C # ''boxed{1} so '' @ CHR 0x5C # ''boxed{'' @ CHR 0x5C # ''frac{1}{2}}''"

section \<open>Exceptions\<close>

text \<open>
  A raised exception is known by its class and the classes that class derives from, which
  is all an \<open>except\<close> clause looks at: \<open>except C\<close> handles the exception when \<open>C\<close> is among
  them. \<open>TimeoutException\<close> is imported from \<open>math_verify.errors\<close>, a library outside
  this repository, where it is declared directly under \<open>BaseException\<close> and not under
  \<open>Exception\<close>; this is why the source gives it a handler of its own after
  \<open>except Exception\<close>. \<open>timeout_exception\<close> is what the verifier raises when it runs out
  of time.
\<close>

datatype py_class =
  BaseException | Exception | TimeoutException | ValueError | KeyboardInterrupt
  | OtherClass string

type_synonym py_exception = "py_class list"

definition isinstance :: "py_exception \<Rightarrow> py_class \<Rightarrow> bool" where
  "isinstance e c \<longleftrightarrow> c \<in> set e"

definition timeout_exception :: py_exception where
  "timeout_exception = [TimeoutException, BaseException]"

definition value_error :: py_exception where
  "value_error = [ValueError, Exception, BaseException]"

definition keyboard_interrupt :: py_exception where
  "keyboard_interrupt = [KeyboardInterrupt, BaseException]"

text \<open>A call of a collaborator either returns a value or raises.\<close>

datatype 'a outcome = Returned 'a | Raised py_exception

section \<open>compute_score\<close>

text \<open>
  \<open>verify_func\<close> is what \<open>math_metric\<close> builds: it takes the list of gold strings and the
  list of predictions and returns a pair whose first component is the score. The \<open>try\<close>
  statement has two handlers, tried in the order written: \<open>except Exception: pass\<close> leaves
  \<open>ret_score\<close> at \<open>0.0\<close>, \<open>except TimeoutException\<close> assigns \<open>timeout_score\<close>, and an
  exception that neither handles leaves the function.
\<close>

type_synonym 'x verifier = "string list \<Rightarrow> string list \<Rightarrow> (real \<times> 'x) outcome"

definition compute_score :: "'x verifier \<Rightarrow> string \<Rightarrow> string \<Rightarrow> real \<Rightarrow> py_exception + real" where
  "compute_score verify_func model_output ground_truth timeout_score =
     (let ret_score = 0;
          ground_truth_boxed = boxed_marker @ ''{'' @ ground_truth @ ''}'';
          prediction_boxed = boxed_marker @ ''{'' @ extract_boxed model_output @ ''}''
      in case verify_func [ground_truth_boxed] [prediction_boxed] of
           Returned (score, _) \<Rightarrow> Inr score
         | Raised e \<Rightarrow>
             (if isinstance e Exception then Inr ret_score
              else if isinstance e TimeoutException then Inr timeout_score
              else Inl e))"


section \<open>The scoring loop of compute_score.py\<close>

text \<open>
  A row of the dataset. \<open>scores\<close> is absent (\<open>None\<close>) until the script sets it; \<open>meta\<close>
  stands for every other field of the row.
\<close>

record 'm sample =
  problem :: string
  gt :: string
  responses :: "string list"
  scores :: "real list option"
  meta :: 'm

record score_script_arguments =
  dataset_path :: string
  record_path :: string
  save_score :: bool

text \<open>
  \<open>str.lower()\<close> on code points below 256, and the test \<open>sub in s\<close>.
\<close>

definition lower_char :: "char \<Rightarrow> char" where
  "lower_char c = (let n = (of_char c :: nat) in
     if (65 \<le> n \<and> n \<le> 90) \<or> (192 \<le> n \<and> n \<le> 222 \<and> n \<noteq> 215) then char_of (n + 32) else c)"

definition py_lower :: "string \<Rightarrow> string" where
  "py_lower s = map lower_char s"

fun contains :: "string \<Rightarrow> string \<Rightarrow> bool" where
  "contains sub [] \<longleftrightarrow> sub = []"
| "contains sub (c # cs) \<longleftrightarrow> prefix sub (c # cs) \<or> contains sub cs"

text \<open>
  The body of the inner loop, lines 98 to 101. \<open>extract_answer\<close> and \<open>math_equal\<close> are the
  collaborators of the alternate strategy; \<open>math_equal\<close> returns a \<open>bool\<close>, which counts as
  1 or 0. The call \<open>compute_score(response, ground_truth)\<close> leaves \<open>timeout_score\<close> at its
  default 0. An exception that leaves either branch leaves the loops: \<open>main\<close> has no handler.
\<close>

definition score_response ::
  "'x verifier \<Rightarrow> (string \<Rightarrow> string \<Rightarrow> string outcome) \<Rightarrow> (string \<Rightarrow> string \<Rightarrow> bool outcome) \<Rightarrow>
   bool \<Rightarrow> string \<Rightarrow> string \<Rightarrow> py_exception + real" where
  "score_response verify_func extract_answer math_equal is_minerva_math response ground_truth =
     (if is_minerva_math then
        (case extract_answer response ''minerva_math'' of
           Raised e \<Rightarrow> Inl e
         | Returned answer \<Rightarrow>
             (case math_equal answer ground_truth of
                Raised e \<Rightarrow> Inl e
              | Returned b \<Rightarrow> Inr (of_bool b)))
      else compute_score verify_func response ground_truth 0)"

fun score_responses ::
  "'x verifier \<Rightarrow> (string \<Rightarrow> string \<Rightarrow> string outcome) \<Rightarrow> (string \<Rightarrow> string \<Rightarrow> bool outcome) \<Rightarrow>
   bool \<Rightarrow> string \<Rightarrow> string list \<Rightarrow> real list \<Rightarrow> py_exception + real list" where
  "score_responses verify_func extract_answer math_equal is_minerva_math ground_truth []
     tmp_scores = Inr tmp_scores"
| "score_responses verify_func extract_answer math_equal is_minerva_math ground_truth
     (response # all_responses) tmp_scores =
     (case score_response verify_func extract_answer math_equal is_minerva_math
             response ground_truth of
        Inl e \<Rightarrow> Inl e
      | Inr score \<Rightarrow>
          score_responses verify_func extract_answer math_equal is_minerva_math ground_truth
            all_responses (tmp_scores @ [score]))"

fun score_samples ::
  "'x verifier \<Rightarrow> (string \<Rightarrow> string \<Rightarrow> string outcome) \<Rightarrow> (string \<Rightarrow> string \<Rightarrow> bool outcome) \<Rightarrow>
   bool \<Rightarrow> 'm sample list \<Rightarrow> real list list \<Rightarrow> py_exception + real list list" where
  "score_samples verify_func extract_answer math_equal is_minerva_math [] all_scores =
     Inr all_scores"
| "score_samples verify_func extract_answer math_equal is_minerva_math (s # ds) all_scores =
     (case score_responses verify_func extract_answer math_equal is_minerva_math (gt s)
             (responses s) [] of
        Inl e \<Rightarrow> Inl e
      | Inr tmp_scores \<Rightarrow>
          score_samples verify_func extract_answer math_equal is_minerva_math ds
            (all_scores @ [tmp_scores]))"

section \<open>The summary record and the annotated file\<close>

text \<open>
  \<open>np.mean\<close> of a list of lists first builds an array. Rows of one length give a
  two-dimensional array of \<open>float64\<close>, and its mean is computed in floating-point
  arithmetic, which is not modelled: \<open>array_mean\<close> stands for it, with values in a type
  \<open>'f\<close> of floating-point numbers. Rows of different lengths give no array: the call
  raises (\<open>ValueError\<close>, inhomogeneous shape). Likewise \<open>round_float\<close> stands for
  \<open>np.round\<close> and \<open>str_float\<close> for \<open>str\<close> on its result.
\<close>

definition rectangular :: "'a list list \<Rightarrow> bool" where
  "rectangular rows \<longleftrightarrow> (\<forall>r\<in>set rows. length r = length (hd rows))"

definition np_mean :: "(real list list \<Rightarrow> 'f) \<Rightarrow> real list list \<Rightarrow> py_exception + 'f" where
  "np_mean array_mean rows =
     (if \<not> rectangular rows then Inl value_error else Inr (array_mean rows))"

text \<open>\<open>s.split(sep)[0]\<close> for a non-empty \<open>sep\<close>: the text before its first occurrence.\<close>

fun before_first :: "string \<Rightarrow> string \<Rightarrow> string" where
  "before_first sep [] = []"
| "before_first sep (c # cs) = (if prefix sep (c # cs) then [] else c # before_first sep cs)"

text \<open>
  What a run of \<open>main\<close> leaves behind: the exception that ended it, if any, the content of
  the record file (\<open>None\<close> when it was never opened), and the path and the records of the
  annotated file, one record per line written. The record file is opened, and so emptied,
  before the mean is computed.
\<close>

record 'm run_result =
  raised :: "py_exception option"
  record_file :: "string option"
  score_file :: "(string \<times> 'm sample list) option"

definition score_path :: "string \<Rightarrow> string" where
  "score_path path = before_first ''.jsonl'' path @ ''_score.jsonl''"

definition annotate :: "real list list \<Rightarrow> 'm sample list \<Rightarrow> 'm sample list" where
  "annotate all_scores ds =
     map (\<lambda>(i, sample). sample\<lparr>scores := Some (all_scores ! i)\<rparr>) (enumerate 0 ds)"

definition main ::
  "'x verifier \<Rightarrow> (string \<Rightarrow> string \<Rightarrow> string outcome) \<Rightarrow> (string \<Rightarrow> string \<Rightarrow> bool outcome) \<Rightarrow>
   (real list list \<Rightarrow> 'f) \<Rightarrow> ('f \<Rightarrow> nat \<Rightarrow> 'f) \<Rightarrow> ('f \<Rightarrow> string) \<Rightarrow>
   score_script_arguments \<Rightarrow> 'm sample list \<Rightarrow> 'm run_result" where
  "main verify_func extract_answer math_equal array_mean round_float str_float script_args ds =
     (let is_minerva_math = contains ''minerva_math'' (py_lower (dataset_path script_args))
      in case score_samples verify_func extract_answer math_equal is_minerva_math ds [] of
           Inl e \<Rightarrow> \<lparr>raised = Some e, record_file = None, score_file = None\<rparr>
         | Inr all_scores \<Rightarrow>
             (case np_mean array_mean all_scores of
                Inl e \<Rightarrow> \<lparr>raised = Some e, record_file = Some [], score_file = None\<rparr>
              | Inr mean \<Rightarrow>
                  (let rounded_scores = round_float mean 4
                   in \<lparr>raised = None,
                       record_file = Some (dataset_path script_args @ '' '' @
                                           str_float rounded_scores @ [CHR 0x0A]),
                       score_file =
                         (if save_score script_args
                          then Some (score_path (dataset_path script_args),
                                     annotate all_scores ds)
                          else None)\<rparr>)))"

text \<open>The directory part of a path: everything up to and including its last slash.\<close>

definition dir_part :: "string \<Rightarrow> string" where
  "dir_part path = rev (dropWhile (\<lambda>c. c \<noteq> CHR ''/'') (rev path))"

section \<open>merge_data.py\<close>








text \<open>
  \<open>random.shuffle(x)\<close> runs \<open>i\<close> from \<open>len(x) - 1\<close> down to 1 and exchanges \<open>x[i]\<close> with
  \<open>x[j]\<close> for a \<open>j\<close> drawn below \<open>i + 1\<close>. The draws are a parameter: \<open>rnd i\<close> is the
  number the generator yields at step \<open>i\<close>, reduced below \<open>i + 1\<close>.
\<close>

primrec shuffle_loop :: "(nat \<Rightarrow> nat) \<Rightarrow> nat \<Rightarrow> 'a list \<Rightarrow> 'a list" where
  "shuffle_loop rnd 0 x = x"
| "shuffle_loop rnd (Suc k) x =
     (let i = Suc k; j = rnd i mod (i + 1)
      in shuffle_loop rnd k (x[i := x ! j, j := x ! i]))"

definition shuffle :: "(nat \<Rightarrow> nat) \<Rightarrow> 'a list \<Rightarrow> 'a list" where
  "shuffle rnd x = shuffle_loop rnd (length x - 1) x"




section \<open>Concrete collaborators and datasets\<close>

text \<open>
  Inputs on which the theorems below are evaluated: a verifier that always times out, a
  verifier and an exact-match grader that fail on the answer \<open>bad\<close>, and small datasets.
\<close>

definition raising_timeout :: "unit verifier" where
  "raising_timeout gold pred = Raised timeout_exception"

definition extract_answer_id :: "string \<Rightarrow> string \<Rightarrow> string outcome" where
  "extract_answer_id response data_name = Returned response"

definition math_equal_strict :: "string \<Rightarrow> string \<Rightarrow> bool outcome" where
  "math_equal_strict prediction reference =
     (if prediction = ''bad'' then Raised value_error else Returned (prediction = reference))"

definition failing_on_bad :: "unit verifier" where
  "failing_on_bad gold pred =
     (if pred = [boxed_marker @ ''{bad}''] then Raised value_error
      else Returned (if pred = gold then 1 else 0, ()))"

definition demo_ds :: "unit sample list" where
  "demo_ds =
     [\<lparr>problem = ''2+2'', gt = ''4'', responses = [CHR 0x5C # ''boxed{4}'', CHR 0x5C # ''boxed{bad}''],
        scores = None, meta = ()\<rparr>,
      \<lparr>problem = ''1+2'', gt = ''3'', responses = [CHR 0x5C # ''boxed{5}'', CHR 0x5C # ''boxed{3}''],
        scores = None, meta = ()\<rparr>]"

definition minerva_ds :: "unit sample list" where
  "minerva_ds =
     [\<lparr>problem = ''2+2'', gt = ''4'', responses = [''4'', ''bad''], scores = None, meta = ()\<rparr>,
      \<lparr>problem = ''1+2'', gt = ''3'', responses = [''5'', ''3''], scores = None, meta = ()\<rparr>]"

definition ragged_ds :: "unit sample list" where
  "ragged_ds =
     [\<lparr>problem = ''2+2'', gt = ''4'', responses = [CHR 0x5C # ''boxed{4}''],
        scores = None, meta = ()\<rparr>,
      \<lparr>problem = ''1+2'', gt = ''3'', responses = [CHR 0x5C # ''boxed{5}'', CHR 0x5C # ''boxed{3}''],
        scores = None, meta = ()\<rparr>]"

definition demo_args :: score_script_arguments where
  "demo_args = \<lparr>dataset_path = ''data/math500.jsonl'', record_path = ''record.txt'', save_score = True\<rparr>"

definition minerva_args :: score_script_arguments where
  "minerva_args = \<lparr>dataset_path = ''data/Minerva_Math.jsonl'', record_path = ''record.txt'', save_score = True\<rparr>"

text \<open>A path whose directory holds the extension.\<close>

definition nested_args :: score_script_arguments where
  "nested_args = \<lparr>dataset_path = ''runs.jsonl/part0.jsonl'', record_path = ''record.txt'', save_score = True\<rparr>"




section \<open>The search finds the leftmost match\<close>

text \<open>
  \<open>re_search_boxed\<close> returns \<open>Some tok\<close> exactly when the pattern matches somewhere
  and \<open>tok\<close> is the token of the match that starts first, and \<open>None\<close> exactly when
  the pattern matches nowhere.
\<close>

lemma alnum_not_space: "is_alnum c \<Longrightarrow> \<not> is_space c"
  by (auto simp: is_alnum_def is_space_def Let_def)

lemma takeWhile_run:
  assumes "\<forall>c\<in>set xs. P c" and "ys = [] \<or> \<not> P (hd ys)"
  shows "takeWhile P (xs @ ys) = xs" and "dropWhile P (xs @ ys) = ys"
proof -
  have t: "takeWhile P ys = []" using assms(2) by (cases ys) auto
  have d: "dropWhile P ys = ys" using assms(2) by (cases ys) auto
  show "takeWhile P (xs @ ys) = xs" using assms(1) t by (simp add: takeWhile_append2)
  show "dropWhile P (xs @ ys) = ys" using assms(1) d by (simp add: dropWhile_append2)
qed

lemma re_match_here_iff:
  "re_match_here s = Some tok \<longleftrightarrow>
     (\<exists>ws rest. s = boxed_marker @ ws @ tok @ rest \<and>
        ws \<noteq> [] \<and> (\<forall>c\<in>set ws. is_space c) \<and>
        tok \<noteq> [] \<and> (\<forall>c\<in>set tok. is_alnum c) \<and>
        (rest = [] \<or> \<not> is_alnum (hd rest)))"
proof
  assume h: "re_match_here s = Some tok"
  let ?r = "drop (length boxed_marker) s"
  let ?ws = "takeWhile is_space ?r"
  let ?r2 = "dropWhile is_space ?r"
  let ?rest = "dropWhile is_alnum ?r2"
  from h have p: "prefix boxed_marker s" and ws: "?ws \<noteq> []"
    and tok: "tok = takeWhile is_alnum ?r2" "tok \<noteq> []"
    by (auto simp: re_match_here_def Let_def split: if_splits)
  from p have "s = boxed_marker @ ?r" by (auto simp: prefix_def)
  also have "?r = ?ws @ ?r2" by simp
  also have "?r2 = tok @ ?rest" using tok(1) by simp
  finally have "s = boxed_marker @ ?ws @ tok @ ?rest" .
  moreover have "\<forall>c\<in>set ?ws. is_space c" by (auto dest: set_takeWhileD)
  moreover have "\<forall>c\<in>set tok. is_alnum c" using tok(1) by (auto dest: set_takeWhileD)
  moreover have "?rest = [] \<or> \<not> is_alnum (hd ?rest)" by (metis hd_dropWhile)
  ultimately show "\<exists>ws rest. s = boxed_marker @ ws @ tok @ rest \<and>
        ws \<noteq> [] \<and> (\<forall>c\<in>set ws. is_space c) \<and>
        tok \<noteq> [] \<and> (\<forall>c\<in>set tok. is_alnum c) \<and>
        (rest = [] \<or> \<not> is_alnum (hd rest))"
    using ws tok(2) by blast
next
  assume "\<exists>ws rest. s = boxed_marker @ ws @ tok @ rest \<and>
        ws \<noteq> [] \<and> (\<forall>c\<in>set ws. is_space c) \<and>
        tok \<noteq> [] \<and> (\<forall>c\<in>set tok. is_alnum c) \<and>
        (rest = [] \<or> \<not> is_alnum (hd rest))"
  then obtain ws rest where s: "s = boxed_marker @ ws @ tok @ rest"
    and ws: "ws \<noteq> []" "\<forall>c\<in>set ws. is_space c"
    and tok: "tok \<noteq> []" "\<forall>c\<in>set tok. is_alnum c"
    and rest: "rest = [] \<or> \<not> is_alnum (hd rest)"
    by blast
  have d: "drop (length boxed_marker) s = ws @ tok @ rest" using s by simp
  have "is_alnum (hd (tok @ rest))" using tok by (cases tok) auto
  then have nsp: "tok @ rest = [] \<or> \<not> is_space (hd (tok @ rest))"
    using alnum_not_space by blast
  have a: "takeWhile is_space (ws @ tok @ rest) = ws"
    and b: "dropWhile is_space (ws @ tok @ rest) = tok @ rest"
    using takeWhile_run [OF ws(2) nsp] by simp_all
  have c: "takeWhile is_alnum (tok @ rest) = tok"
    using takeWhile_run(1) [OF tok(2) rest] .
  have "prefix boxed_marker s" using s by simp
  then show "re_match_here s = Some tok"
    using d a b c ws(1) tok(1) by (simp add: re_match_here_def Let_def)
qed

lemma re_match_at_0: "re_match_at s 0 tok \<longleftrightarrow> re_match_here s = Some tok"
  by (simp add: re_match_at_def re_match_here_iff)

lemma re_match_at_Suc: "re_match_at (c # cs) (Suc p) tok \<longleftrightarrow> re_match_at cs p tok"
  by (simp add: re_match_at_def)

lemma re_search_boxed_None_iff:
  "re_search_boxed s = None \<longleftrightarrow> (\<forall>p tok. \<not> re_match_at s p tok)"
proof (induction s)
  case Nil
  have "\<not> re_match_at [] p tok" for p tok
    by (simp add: re_match_at_def boxed_marker_def)
  then show ?case by simp
next
  case (Cons c cs)
  show ?case
  proof (cases "re_match_here (c # cs)")
    case None
    have "(\<forall>p tok. \<not> re_match_at (c # cs) p tok) \<longleftrightarrow> (\<forall>p tok. \<not> re_match_at cs p tok)"
    proof
      assume h: "\<forall>p tok. \<not> re_match_at (c # cs) p tok"
      show "\<forall>p tok. \<not> re_match_at cs p tok"
        using h re_match_at_Suc by blast
    next
      assume h: "\<forall>p tok. \<not> re_match_at cs p tok"
      show "\<forall>p tok. \<not> re_match_at (c # cs) p tok"
      proof (intro allI)
        fix p tok
        show "\<not> re_match_at (c # cs) p tok"
        proof (cases p)
          case 0
          with None show ?thesis by (simp add: re_match_at_0)
        next
          case (Suc q)
          with h show ?thesis by (simp add: re_match_at_Suc)
        qed
      qed
    qed
    with None Cons.IH show ?thesis by simp
  next
    case (Some tok)
    then have "re_match_at (c # cs) 0 tok" by (simp add: re_match_at_0)
    with Some show ?thesis by auto
  qed
qed

lemma re_search_boxed_Some_iff:
  "re_search_boxed s = Some tok \<longleftrightarrow>
     (\<exists>p. re_match_at s p tok \<and> (\<forall>q<p. \<forall>t. \<not> re_match_at s q t))"
proof (induction s)
  case Nil
  have "\<not> re_match_at [] p t" for p t
    by (simp add: re_match_at_def boxed_marker_def)
  then show ?case by simp
next
  case (Cons c cs)
  show ?case
  proof (cases "re_match_here (c # cs)")
    case (Some t0)
    then have m0: "re_match_at (c # cs) 0 t0" by (simp add: re_match_at_0)
    show ?thesis
    proof
      assume "re_search_boxed (c # cs) = Some tok"
      with Some have "tok = t0" by simp
      with m0 have "re_match_at (c # cs) 0 tok \<and> (\<forall>q<0. \<forall>t. \<not> re_match_at (c # cs) q t)"
        by simp
      then show "\<exists>p. re_match_at (c # cs) p tok \<and> (\<forall>q<p. \<forall>t. \<not> re_match_at (c # cs) q t)"
        by blast
    next
      assume "\<exists>p. re_match_at (c # cs) p tok \<and> (\<forall>q<p. \<forall>t. \<not> re_match_at (c # cs) q t)"
      then obtain p where p: "re_match_at (c # cs) p tok"
          "\<forall>q<p. \<forall>t. \<not> re_match_at (c # cs) q t"
        by blast
      have "p = 0"
      proof (rule ccontr)
        assume "p \<noteq> 0"
        then have "0 < p" by simp
        with p(2) m0 show False by blast
      qed
      with p(1) have "re_match_here (c # cs) = Some tok" by (simp add: re_match_at_0)
      then show "re_search_boxed (c # cs) = Some tok" by simp
    qed
  next
    case None
    then have n0: "\<not> re_match_at (c # cs) 0 t" for t by (simp add: re_match_at_0)
    have "(\<exists>p. re_match_at (c # cs) p tok \<and> (\<forall>q<p. \<forall>t. \<not> re_match_at (c # cs) q t)) \<longleftrightarrow>
        (\<exists>p. re_match_at cs p tok \<and> (\<forall>q<p. \<forall>t. \<not> re_match_at cs q t))"
    proof
      assume "\<exists>p. re_match_at (c # cs) p tok \<and> (\<forall>q<p. \<forall>t. \<not> re_match_at (c # cs) q t)"
      then obtain p where p: "re_match_at (c # cs) p tok"
          "\<forall>q<p. \<forall>t. \<not> re_match_at (c # cs) q t"
        by blast
      from p(1) n0 obtain p' where p': "p = Suc p'" by (cases p) auto
      have "re_match_at cs p' tok" using p(1) p' by (simp add: re_match_at_Suc)
      moreover have "\<forall>q<p'. \<forall>t. \<not> re_match_at cs q t"
      proof (intro allI impI)
        fix q t assume "q < p'"
        then have "Suc q < p" using p' by simp
        with p(2) have "\<not> re_match_at (c # cs) (Suc q) t" by blast
        then show "\<not> re_match_at cs q t" by (simp add: re_match_at_Suc)
      qed
      ultimately show "\<exists>p. re_match_at cs p tok \<and> (\<forall>q<p. \<forall>t. \<not> re_match_at cs q t)"
        by blast
    next
      assume "\<exists>p. re_match_at cs p tok \<and> (\<forall>q<p. \<forall>t. \<not> re_match_at cs q t)"
      then obtain p where p: "re_match_at cs p tok" "\<forall>q<p. \<forall>t. \<not> re_match_at cs q t"
        by blast
      have "re_match_at (c # cs) (Suc p) tok" using p(1) by (simp add: re_match_at_Suc)
      moreover have "\<forall>q<Suc p. \<forall>t. \<not> re_match_at (c # cs) q t"
      proof (intro allI impI)
        fix q t assume q: "q < Suc p"
        show "\<not> re_match_at (c # cs) q t"
        proof (cases q)
          case 0
          then show ?thesis using n0 by simp
        next
          case (Suc q')
          with q p(2) show ?thesis by (simp add: re_match_at_Suc)
        qed
      qed
      ultimately show "\<exists>p. re_match_at (c # cs) p tok \<and> (\<forall>q<p. \<forall>t. \<not> re_match_at (c # cs) q t)"
        by blast
    qed
    with None Cons.IH show ?thesis by simp
  qed
qed

section \<open>Properties of the brace scan\<close>

lemma brace_excess_append [simp]:
  "brace_excess (xs @ ys) = brace_excess xs + brace_excess ys"
  by (induction xs) simp_all

lemma brace_excess_take_Suc:
  "n < length s \<Longrightarrow> brace_excess (take (Suc n) s) = brace_excess (take n s) + brace_delta (s ! n)"
  by (simp add: take_Suc_conv_app_nth)

lemma no_unmatched_close_iff:
  "no_unmatched_close s \<longleftrightarrow> (\<forall>k. 0 \<le> brace_excess (take k s))"
proof
  assume h: "no_unmatched_close s"
  show "\<forall>k. 0 \<le> brace_excess (take k s)"
  proof
    fix k
    show "0 \<le> brace_excess (take k s)"
    proof (cases "k \<le> length s")
      case True
      with h show ?thesis by (simp add: no_unmatched_close_def)
    next
      case False
      then have "take k s = take (length s) s" by simp
      with h show ?thesis unfolding no_unmatched_close_def
        by (metis atLeastAtMost_iff le0 order_refl)
    qed
  qed
next
  assume "\<forall>k. 0 \<le> brace_excess (take k s)"
  then show "no_unmatched_close s" by (simp add: no_unmatched_close_def)
qed

lemma no_unmatched_close_append:
  "no_unmatched_close (xs @ ys) \<longleftrightarrow>
     no_unmatched_close xs \<and> (\<forall>k. 0 \<le> brace_excess xs + brace_excess (take k ys))"
proof -
  have a: "no_unmatched_close xs" if h: "no_unmatched_close (xs @ ys)"
    unfolding no_unmatched_close_def
  proof
    fix k assume "k \<in> {0..length xs}"
    then have "take k (xs @ ys) = take k xs" by simp
    with h show "0 \<le> brace_excess (take k xs)"
      by (metis no_unmatched_close_iff)
  qed
  have b: "0 \<le> brace_excess xs + brace_excess (take k ys)" if h: "no_unmatched_close (xs @ ys)" for k
  proof -
    have "take (length xs + k) (xs @ ys) = xs @ take k ys" by simp
    with h show ?thesis
      by (metis no_unmatched_close_iff brace_excess_append)
  qed
  have c: "no_unmatched_close (xs @ ys)"
    if h1: "no_unmatched_close xs" and h2: "\<forall>k. 0 \<le> brace_excess xs + brace_excess (take k ys)"
    unfolding no_unmatched_close_iff
  proof
    fix k
    show "0 \<le> brace_excess (take k (xs @ ys))"
    proof (cases "k \<le> length xs")
      case True
      then show ?thesis using h1 by (simp add: no_unmatched_close_iff)
    next
      case False
      then show ?thesis using h2 by simp
    qed
  qed
  show ?thesis using a b c by blast
qed

lemma balanced_Nil [simp]: "balanced []"
  by (simp add: balanced_def no_unmatched_close_def)

lemma balanced_snoc_other:
  assumes "balanced s" and "c \<noteq> CHR ''{''" and "c \<noteq> CHR ''}''"
  shows "balanced (s @ [c])"
proof -
  have d: "brace_delta c = 0" using assms by (simp add: brace_delta_def)
  have "0 \<le> brace_excess s + brace_excess (take k [c])" for k
    using assms(1) d by (cases k) (simp_all add: balanced_def)
  then show ?thesis using assms(1) d
    by (simp add: balanced_def no_unmatched_close_append)
qed

lemma balanced_wrap:
  assumes "balanced A" and "balanced B"
  shows "balanced (A @ CHR ''{'' # B @ [CHR ''}''])"
proof -
  have eA: "brace_excess A = 0" and eB: "brace_excess B = 0"
    using assms by (simp_all add: balanced_def)
  have nB: "0 \<le> brace_excess (take k B)" for k
    using assms(2) by (simp add: balanced_def no_unmatched_close_iff)
  have close: "- 1 \<le> brace_excess (take k [CHR ''}''])" for k
    by (cases k) (simp_all add: brace_delta_def)
  have "0 \<le> brace_excess A + brace_excess (take k (CHR ''{'' # B @ [CHR ''}'']))" for k
  proof (cases k)
    case 0
    then show ?thesis using eA by simp
  next
    case (Suc k')
    have "0 \<le> 1 + brace_excess (take k' B) + brace_excess (take (k' - length B) [CHR ''}''])"
      using nB [of k'] close [of "k' - length B"] by linarith
    then show ?thesis using Suc eA by (simp add: brace_delta_def)
  qed
  moreover have "brace_excess (A @ CHR ''{'' # B @ [CHR ''}'']) = 0"
    using eA eB by (simp add: brace_delta_def)
  ultimately show ?thesis using assms(1)
    by (simp add: balanced_def no_unmatched_close_append)
qed

lemma py_slice_snoc:
  "lo \<le> n \<Longrightarrow> n < length text \<Longrightarrow> py_slice text lo (Suc n) = py_slice text lo n @ [text ! n]"
  by (simp add: py_slice_def Suc_diff_le take_Suc_conv_app_nth)

lemma py_slice_empty [simp]: "py_slice text n n = []"
  by (simp add: py_slice_def)

lemma py_slice_split:
  assumes "lo \<le> k" and "k < n" and "n \<le> length text"
  shows "py_slice text lo n = py_slice text lo k @ text ! k # py_slice text (Suc k) n"
proof -
  have "n - lo = (k - lo) + (n - k)" using assms by simp
  then have "take (n - lo) (drop lo text) =
      take (k - lo) (drop lo text) @ take (n - k) (drop (k - lo) (drop lo text))"
    by (simp only: take_add)
  also have "drop (k - lo) (drop lo text) = drop k text" using assms by simp
  also have "drop k text = text ! k # drop (Suc k) text"
    using assms by (simp add: Cons_nth_drop_Suc)
  also have "take (n - k) (text ! k # drop (Suc k) text) = text ! k # take (n - Suc k) (drop (Suc k) text)"
  proof -
    have "n - k = Suc (n - Suc k)" using assms by simp
    then show ?thesis by simp
  qed
  finally show ?thesis by (simp add: py_slice_def)
qed

lemma matched_unique_open:
  assumes "matched text i j" and "matched text i' j"
  shows "i = i'"
proof -
  have aux: False if m1: "matched text a j" and m2: "matched text b j" and lt: "a < b" for a b
  proof -
    have bj: "b < j" "j \<le> length text" "text ! b = CHR ''{''"
      using m2 by (simp_all add: matched_def)
    have sp: "py_slice text (Suc a) j = py_slice text (Suc a) b @ text ! b # py_slice text (Suc b) j"
      using lt bj by (intro py_slice_split) simp_all
    have b1: "balanced (py_slice text (Suc a) b @ CHR ''{'' # py_slice text (Suc b) j)"
      using m1 sp bj by (simp add: matched_def)
    have b2: "brace_excess (py_slice text (Suc b) j) = 0"
      using m2 by (simp add: matched_def balanced_def)
    from b1 b2 have "brace_excess (py_slice text (Suc a) b) = - 1"
      by (simp add: balanced_def brace_delta_def)
    moreover have "0 \<le> brace_excess (py_slice text (Suc a) b)"
    proof -
      from b1 have "no_unmatched_close (py_slice text (Suc a) b)"
        by (simp add: balanced_def no_unmatched_close_append)
      then have "0 \<le> brace_excess (take (length (py_slice text (Suc a) b)) (py_slice text (Suc a) b))"
        using no_unmatched_close_iff by blast
      then show ?thesis by simp
    qed
    ultimately show False by simp
  qed
  show ?thesis
    using aux [of i i'] aux [of i' i] assms by (metis nat_neq_iff)
qed

lemma open_chain_push:
  "open_chain text lo ks n \<Longrightarrow> text ! n = CHR ''{'' \<Longrightarrow> open_chain text lo (ks @ [n]) (Suc n)"
  by (induction ks arbitrary: lo) auto

lemma open_chain_other:
  "open_chain text lo ks n \<Longrightarrow> n < length text \<Longrightarrow> text ! n \<noteq> CHR ''{'' \<Longrightarrow>
   text ! n \<noteq> CHR ''}'' \<Longrightarrow> open_chain text lo ks (Suc n)"
  by (induction ks arbitrary: lo) (auto simp: py_slice_snoc balanced_snoc_other)

lemma open_chain_pop:
  "open_chain text lo (ks @ [k]) n \<Longrightarrow> n < length text \<Longrightarrow> text ! n = CHR ''}'' \<Longrightarrow>
   open_chain text lo ks (Suc n) \<and> matched text k n"
proof (induction ks arbitrary: lo)
  case Nil
  then have h: "lo \<le> k" "k < n" "text ! k = CHR ''{''" "balanced (py_slice text lo k)"
    "balanced (py_slice text (Suc k) n)"
    by simp_all
  have "py_slice text lo (Suc n) = py_slice text lo n @ [text ! n]"
    using h Nil.prems by (intro py_slice_snoc) simp_all
  also have "py_slice text lo n = py_slice text lo k @ text ! k # py_slice text (Suc k) n"
    using h Nil.prems by (intro py_slice_split) simp_all
  finally have "py_slice text lo (Suc n) =
      py_slice text lo k @ CHR ''{'' # py_slice text (Suc k) n @ [CHR ''}'']"
    using h Nil.prems by simp
  then have "balanced (py_slice text lo (Suc n))"
    using h balanced_wrap by simp
  then show ?case using h Nil.prems by (simp add: matched_def)
next
  case (Cons a ks)
  then show ?case by auto
qed

lemma open_chain_excess:
  "open_chain text lo ks n \<Longrightarrow> n \<le> length text \<Longrightarrow>
   brace_excess (py_slice text lo n) = int (length ks)"
proof (induction ks arbitrary: lo)
  case Nil
  then show ?case by (simp add: balanced_def)
next
  case (Cons k ks)
  then have "py_slice text lo n = py_slice text lo k @ text ! k # py_slice text (Suc k) n"
    by (intro py_slice_split) simp_all
  then show ?case using Cons by (simp add: balanced_def brace_delta_def)
qed

lemma boxed_inv_skip:
  assumes "boxed_inv text n bs" and "\<forall>i. \<not> boxed_pair text i n"
  shows "boxed_inv text (Suc n) bs"
proof -
  have below: "j < n" if "j < Suc n" and "boxed_pair text i j" for i j
  proof -
    from that assms(2) have "j \<noteq> n" by blast
    with that show ?thesis by simp
  qed
  show ?thesis
  proof (cases "bs = []")
    case True
    with assms(1) have "\<forall>i j. j < n \<longrightarrow> \<not> boxed_pair text i j"
      by (simp add: boxed_inv_def)
    with below have "\<forall>i j. j < Suc n \<longrightarrow> \<not> boxed_pair text i j"
      by blast
    with True show ?thesis by (simp add: boxed_inv_def)
  next
    case False
    with assms(1) obtain i j where ij: "j < n" "boxed_pair text i j"
        "last bs = py_slice text (i + 1) j"
        "\<forall>i' j'. j' < n \<and> boxed_pair text i' j' \<longrightarrow> j' \<le> j"
      by (simp add: boxed_inv_def) blast
    have "\<forall>i' j'. j' < Suc n \<and> boxed_pair text i' j' \<longrightarrow> j' \<le> j"
      using ij(4) below by blast
    moreover have "j < Suc n" using ij(1) by simp
    ultimately have "\<exists>i j. j < Suc n \<and> boxed_pair text i j \<and>
        last bs = py_slice text (i + 1) j \<and>
        (\<forall>i' j'. j' < Suc n \<and> boxed_pair text i' j' \<longrightarrow> j' \<le> j)"
      using ij(2,3) by blast
    with False show ?thesis by (simp only: boxed_inv_def if_False)
  qed
qed

lemma boxed_inv_append:
  assumes "boxed_pair text i n"
  shows "boxed_inv text (Suc n) (bs @ [py_slice text (i + 1) n])"
proof -
  let ?c = "py_slice text (i + 1) n"
  have "n < Suc n \<and> boxed_pair text i n \<and> last (bs @ [?c]) = py_slice text (i + 1) n \<and>
      (\<forall>i' j'. j' < Suc n \<and> boxed_pair text i' j' \<longrightarrow> j' \<le> n)"
    using assms by simp
  then have "\<exists>i0 j. j < Suc n \<and> boxed_pair text i0 j \<and>
      last (bs @ [?c]) = py_slice text (i0 + 1) j \<and>
      (\<forall>i' j'. j' < Suc n \<and> boxed_pair text i' j' \<longrightarrow> j' \<le> j)"
    by blast
  moreover have "bs @ [?c] \<noteq> []" by simp
  ultimately show ?thesis by (simp only: boxed_inv_def if_False)
qed

lemma scan_step:
  assumes inv: "scan_inv text n stack boxed_strs"
    and n: "n < length text"
    and ex: "0 \<le> brace_excess (take (Suc n) text)"
  shows "\<exists>stack' boxed_strs'.
           scan_from text n stack boxed_strs = scan_from text (Suc n) stack' boxed_strs' \<and>
           scan_inv text (Suc n) stack' boxed_strs'"
proof -
  from inv have ch: "open_chain text 0 stack n" and bi: "boxed_inv text n boxed_strs"
    by (simp_all add: scan_inv_def)
  have len: "brace_excess (take n text) = int (length stack)"
    using open_chain_excess [OF ch] n by (simp add: py_slice_def)
  consider (op) "text ! n = CHR ''{''" | (cl) "text ! n = CHR ''}''"
    | (ot) "text ! n \<noteq> CHR ''{''" "text ! n \<noteq> CHR ''}''"
    by blast
  then show ?thesis
  proof cases
    case op
    have "scan_from text n stack boxed_strs = scan_from text (Suc n) (stack @ [n]) boxed_strs"
      using n op by (subst scan_from.simps) simp
    moreover have "\<forall>i. \<not> boxed_pair text i n"
      using op by (simp add: boxed_pair_def matched_def)
    then have "scan_inv text (Suc n) (stack @ [n]) boxed_strs"
      using n op open_chain_push [OF ch] boxed_inv_skip [OF bi]
      by (simp add: scan_inv_def)
    ultimately show ?thesis by blast
  next
    case cl
    have "brace_excess (take (Suc n) text) = int (length stack) - 1"
      using n cl len by (simp add: brace_excess_take_Suc brace_delta_def)
    with ex have ne: "stack \<noteq> []" by auto
    then have st: "stack = butlast stack @ [last stack]" by simp
    have pop: "open_chain text 0 (butlast stack) (Suc n)" "matched text (last stack) n"
      using open_chain_pop [of _ 0 "butlast stack" "last stack" n] ch st n cl by simp_all
    show ?thesis
    proof (cases "endswith (take (last stack) text) boxed_marker")
      case True
      have "scan_from text n stack boxed_strs =
          scan_from text (Suc n) (butlast stack)
            (boxed_strs @ [py_slice text (last stack + 1) n])"
        using n cl ne True by (subst scan_from.simps) (simp add: Let_def)
      moreover have "boxed_pair text (last stack) n"
        using pop True by (simp add: boxed_pair_def)
      then have "scan_inv text (Suc n) (butlast stack)
            (boxed_strs @ [py_slice text (last stack + 1) n])"
        using n pop boxed_inv_append by (simp add: scan_inv_def)
      ultimately show ?thesis by blast
    next
      case False
      have "scan_from text n stack boxed_strs = scan_from text (Suc n) (butlast stack) boxed_strs"
        using n cl ne False by (subst scan_from.simps) (simp add: Let_def)
      moreover have "\<forall>i. \<not> boxed_pair text i n"
      proof (intro allI notI)
        fix i assume bp: "boxed_pair text i n"
        then have "i = last stack"
          using pop(2) matched_unique_open by (simp add: boxed_pair_def) blast
        with bp False show False by (simp add: boxed_pair_def)
      qed
      then have "scan_inv text (Suc n) (butlast stack) boxed_strs"
        using n pop boxed_inv_skip [OF bi] by (simp add: scan_inv_def)
      ultimately show ?thesis by blast
    qed
  next
    case ot
    have "scan_from text n stack boxed_strs = scan_from text (Suc n) stack boxed_strs"
      using n ot by (subst scan_from.simps) simp
    moreover have "\<forall>i. \<not> boxed_pair text i n"
      using ot by (simp add: boxed_pair_def matched_def)
    then have "scan_inv text (Suc n) stack boxed_strs"
      using n ot open_chain_other [OF ch] boxed_inv_skip [OF bi]
      by (simp add: scan_inv_def)
    ultimately show ?thesis by blast
  qed
qed

lemma scan_run:
  assumes "n \<le> m" and "scan_inv text n stack boxed_strs" and "m \<le> length text"
    and "\<forall>k\<le>m. 0 \<le> brace_excess (take k text)"
  shows "\<exists>stack' boxed_strs'.
           scan_from text n stack boxed_strs = scan_from text m stack' boxed_strs' \<and>
           scan_inv text m stack' boxed_strs'"
  using assms
proof (induction m rule: dec_induct)
  case base
  then show ?case by blast
next
  case (step m)
  then obtain st bs where a: "scan_from text n stack boxed_strs = scan_from text m st bs"
      and b: "scan_inv text m st bs"
    by auto
  have "m < length text" "0 \<le> brace_excess (take (Suc m) text)"
    using step.prems by auto
  from scan_step [OF b this] a show ?case by auto
qed

lemma scan_inv_init: "scan_inv text 0 [] []"
  by (simp add: scan_inv_def boxed_inv_def)

lemma scan_complete:
  assumes "no_unmatched_close text"
  shows "\<exists>boxed_strs. scan_from text 0 [] [] = Some boxed_strs \<and>
           boxed_inv text (length text) boxed_strs"
proof -
  have "\<forall>k\<le>length text. 0 \<le> brace_excess (take k text)"
    using assms by (simp add: no_unmatched_close_def)
  from scan_run [OF _ scan_inv_init _ this]
  obtain st bs where a: "scan_from text 0 [] [] = scan_from text (length text) st bs"
      and b: "scan_inv text (length text) st bs"
    by auto
  have "scan_from text (length text) st bs = Some bs"
    by (subst scan_from.simps) simp
  with a b show ?thesis by (auto simp: scan_inv_def)
qed

lemma scan_early_exit:
  "n \<le> m \<Longrightarrow> m \<le> length t \<Longrightarrow> brace_excess (take n t) = int (length stack) \<Longrightarrow>
   brace_excess (take m t) < 0 \<Longrightarrow> scan_from t n stack boxed_strs = None"
proof (induction t n stack boxed_strs rule: scan_from.induct)
  case (1 t ichar stack boxed_strs)
  have lt: "ichar < m" using "1.prems" by (cases "ichar = m") auto
  then have il: "ichar < length t" and sm: "Suc ichar \<le> m" using "1.prems" by auto
  note ex = brace_excess_take_Suc [OF il]
  consider (op) "t ! ichar = CHR ''{''" | (cl) "t ! ichar = CHR ''}''"
    | (ot) "t ! ichar \<noteq> CHR ''{''" "t ! ichar \<noteq> CHR ''}''"
    by blast
  then show ?case
  proof cases
    case op
    have "scan_from t (Suc ichar) (stack @ [ichar]) boxed_strs = None"
      using "1.IH"(1) [OF il op sm] "1.prems" ex op by (simp add: brace_delta_def)
    then show ?thesis using il op by (subst scan_from.simps) simp
  next
    case cl
    show ?thesis
    proof (cases "stack = []")
      case True
      then show ?thesis using il cl by (subst scan_from.simps) simp
    next
      case False
      have e: "brace_excess (take (Suc ichar) t) = int (length (butlast stack))"
        using "1.prems" ex cl False by (cases stack rule: rev_cases) (simp_all add: brace_delta_def)
      have neq: "t ! ichar \<noteq> CHR ''{''" using cl by simp
      have nz: "length stack \<noteq> 0" using False by simp
      show ?thesis
      proof (cases "endswith (take (last stack) t) boxed_marker")
        case True
        have "scan_from t (Suc ichar) (butlast stack)
            (boxed_strs @ [py_slice t (last stack + 1) ichar]) = None"
          using "1.IH"(2) [OF il neq cl nz refl refl True sm] "1.prems" e by simp
        then show ?thesis using il cl False True by (subst scan_from.simps) (simp add: Let_def)
      next
        case F2: False
        have "scan_from t (Suc ichar) (butlast stack) boxed_strs = None"
          using "1.IH"(3) [OF il neq cl nz refl refl F2 sm] "1.prems" e by simp
        then show ?thesis using il cl False F2 by (subst scan_from.simps) (simp add: Let_def)
      qed
    qed
  next
    case ot
    have "scan_from t (Suc ichar) stack boxed_strs = None"
      using "1.IH"(4) [OF il ot sm] "1.prems" ex ot by (simp add: brace_delta_def)
    then show ?thesis using il ot by (subst scan_from.simps) simp
  qed
qed

lemma depth_ok_iff:
  "0 \<le> d \<Longrightarrow> depth_ok d s \<longleftrightarrow> (\<forall>k. 0 \<le> d + brace_excess (take k s))"
proof (induction s arbitrary: d)
  case Nil
  then show ?case by simp
next
  case (Cons c cs)
  have split: "(\<forall>k. 0 \<le> d + brace_excess (take k (c # cs))) \<longleftrightarrow>
      (\<forall>k. 0 \<le> d + brace_delta c + brace_excess (take k cs))"
  proof
    assume h: "\<forall>k. 0 \<le> d + brace_excess (take k (c # cs))"
    show "\<forall>k. 0 \<le> d + brace_delta c + brace_excess (take k cs)"
    proof
      fix k
      from h have "0 \<le> d + brace_excess (take (Suc k) (c # cs))" by blast
      then show "0 \<le> d + brace_delta c + brace_excess (take k cs)" by simp
    qed
  next
    assume h: "\<forall>k. 0 \<le> d + brace_delta c + brace_excess (take k cs)"
    show "\<forall>k. 0 \<le> d + brace_excess (take k (c # cs))"
    proof
      fix k
      show "0 \<le> d + brace_excess (take k (c # cs))"
      proof (cases k)
        case 0
        with Cons.prems show ?thesis by simp
      next
        case (Suc k')
        with h [rule_format, of k'] show ?thesis by simp
      qed
    qed
  qed
  show ?case
  proof (cases "0 \<le> d + brace_delta c")
    case True
    from Cons.IH [OF True] split show ?thesis using True by simp
  next
    case False
    have "\<not> (\<forall>k. 0 \<le> d + brace_delta c + brace_excess (take k cs))"
    proof
      assume "\<forall>k. 0 \<le> d + brace_delta c + brace_excess (take k cs)"
      then have "0 \<le> d + brace_delta c + brace_excess (take 0 cs)" by blast
      with False show False by simp
    qed
    with split False show ?thesis by simp
  qed
qed

lemma no_unmatched_close_depth: "no_unmatched_close s \<longleftrightarrow> depth_ok 0 s"
  using depth_ok_iff [of 0 s] by (simp add: no_unmatched_close_iff)

lemma balanced_depth: "balanced s \<longleftrightarrow> depth_ok 0 s \<and> brace_excess s = 0"
  by (simp add: balanced_def no_unmatched_close_depth)

lemma two_boxes_pair: "boxed_pair two_boxes 19 31"
proof -
  have "two_boxes ! 19 = CHR ''{''" "two_boxes ! 31 = CHR ''}''" "length two_boxes = 32"
    "py_slice two_boxes (19 + 1) 31 = CHR 0x5C # ''frac{1}{2}''"
    "endswith (take 19 two_boxes) boxed_marker"
    by code_simp+
  moreover have "balanced (CHR 0x5C # ''frac{1}{2}'')"
    by (simp add: balanced_depth brace_delta_def)
  ultimately show ?thesis by (simp add: boxed_pair_def matched_def)
qed

section \<open>What extract_boxed returns\<close>

lemma extract_boxed_of_deficit:
  assumes "m \<le> length s" and "brace_excess (take m s) < 0"
  shows "extract_boxed s = ''''"
proof -
  have "scan_from s 0 [] [] = None"
    using scan_early_exit [of 0 m s "[]" "[]"] assms by simp
  then show ?thesis by (simp add: extract_boxed_def)
qed

text \<open>
  Claim C5. When the scan meets a closing brace while the stack is empty, that is, when
  the text before that brace is balanced, \<open>extract_boxed\<close> returns the empty string,
  whatever follows the brace, a well-formed boxed expression included. In particular
  \<open>extract_boxed("}{\\boxed{1}")\<close> is the empty string.
\<close>

theorem extract_boxed_unmatched_close:
  "(balanced pre \<longrightarrow> extract_boxed (pre @ CHR ''}'' # post) = '''') \<and>
   extract_boxed (''}{'' @ CHR 0x5C # ''boxed{1}'') = ''''"
proof
  show "balanced pre \<longrightarrow> extract_boxed (pre @ CHR ''}'' # post) = ''''"
  proof
    assume "balanced pre"
    then have "brace_excess (take (Suc (length pre)) (pre @ CHR ''}'' # post)) < 0"
      by (simp add: balanced_def brace_delta_def)
    then show "extract_boxed (pre @ CHR ''}'' # post) = ''''"
      by (intro extract_boxed_of_deficit [of "Suc (length pre)"]) simp_all
  qed
  show "extract_boxed (''}{'' @ CHR 0x5C # ''boxed{1}'') = ''''"
    by code_simp
qed

text \<open>The hypothesis of C5 at a balanced prefix, with a boxed expression after the brace.\<close>

theorem extract_boxed_unmatched_close_witness:
  "balanced ''{a}'' \<and> extract_boxed (''{a}'' @ CHR ''}'' # CHR 0x5C # ''boxed{1}'') = ''''"
proof -
  have b: "balanced ''{a}''" by (simp add: balanced_depth brace_delta_def)
  with extract_boxed_unmatched_close [of "''{a}''" "CHR 0x5C # ''boxed{1}''"]
  show ?thesis by blast
qed

lemma extract_boxed_of_pairs:
  assumes nuc: "no_unmatched_close s" and bp: "boxed_pair s i j"
    and mx: "\<forall>i' j'. boxed_pair s i' j' \<longrightarrow> j' \<le> j"
  shows "extract_boxed s = py_slice s (i + 1) j"
proof -
  from scan_complete [OF nuc] obtain bs where sc: "scan_from s 0 [] [] = Some bs"
    and bi: "boxed_inv s (length s) bs"
    by blast
  have jl: "j < length s" using bp by (simp add: boxed_pair_def matched_def)
  have ne: "bs \<noteq> []"
  proof
    assume "bs = []"
    with bi have "\<not> boxed_pair s i j" using jl by (simp add: boxed_inv_def)
    with bp show False by simp
  qed
  with bi obtain i0 j0 where h: "j0 < length s" "boxed_pair s i0 j0"
      "last bs = py_slice s (i0 + 1) j0"
      "\<forall>i' j'. j' < length s \<and> boxed_pair s i' j' \<longrightarrow> j' \<le> j0"
    by (simp add: boxed_inv_def) blast
  have "j \<le> j0" using h(4) bp jl by blast
  moreover have "j0 \<le> j" using mx h(2) by blast
  ultimately have je: "j0 = j" by simp
  then have "i0 = i"
    using matched_unique_open [of s i0 j i] h(2) bp by (simp add: boxed_pair_def)
  with je h(3) sc ne show ?thesis by (simp add: extract_boxed_def)
qed

text \<open>
  Claim C6. For a text with no unmatched closing brace that has a boxed pair, the result of
  \<open>extract_boxed\<close> is the text strictly between the braces of the boxed pair whose closing
  brace comes last, nested braces and all. In particular \<open>extract_boxed("\\boxed{42}")\<close>
  is \<open>"42"\<close> and \<open>extract_boxed("\\boxed{\\frac{1}{2}}")\<close> is \<open>"\\frac{1}{2}"\<close>.
\<close>

theorem extract_boxed_last_boxed:
  "(no_unmatched_close text \<and> boxed_pair text i j \<and>
      (\<forall>i' j'. boxed_pair text i' j' \<longrightarrow> j' \<le> j)
    \<longrightarrow> extract_boxed text = py_slice text (i + 1) j) \<and>
   extract_boxed (CHR 0x5C # ''boxed{42}'') = ''42'' \<and>
   extract_boxed (CHR 0x5C # ''boxed{'' @ CHR 0x5C # ''frac{1}{2}}'') = CHR 0x5C # ''frac{1}{2}''"
proof (intro conjI impI)
  assume "no_unmatched_close text \<and> boxed_pair text i j \<and>
      (\<forall>i' j'. boxed_pair text i' j' \<longrightarrow> j' \<le> j)"
  then show "extract_boxed text = py_slice text (i + 1) j"
    using extract_boxed_of_pairs by blast
next
  show "extract_boxed (CHR 0x5C # ''boxed{42}'') = ''42''" by code_simp
next
  show "extract_boxed (CHR 0x5C # ''boxed{'' @ CHR 0x5C # ''frac{1}{2}}'') = CHR 0x5C # ''frac{1}{2}''"
    by code_simp
qed

text \<open>The hypotheses of C6 on a text with two boxed pairs: the later one wins.\<close>

theorem extract_boxed_last_boxed_witness:
  "no_unmatched_close two_boxes \<and> boxed_pair two_boxes 19 31 \<and>
   \<not> (\<exists>i' j'. boxed_pair two_boxes i' j' \<and> 31 < j') \<and>
   extract_boxed two_boxes = CHR 0x5C # ''frac{1}{2}''"
proof -
  have a: "no_unmatched_close two_boxes"
    by (simp add: no_unmatched_close_depth two_boxes_def brace_delta_def)
  have b: "boxed_pair two_boxes 19 31" by (rule two_boxes_pair)
  have l: "length two_boxes = 32" by code_simp
  have c: "\<forall>i' j'. boxed_pair two_boxes i' j' \<longrightarrow> j' \<le> 31"
    using l by (auto simp: boxed_pair_def matched_def)
  have d: "py_slice two_boxes (19 + 1) 31 = CHR 0x5C # ''frac{1}{2}''" by code_simp
  have e: "\<not> (\<exists>i' j'. boxed_pair two_boxes i' j' \<and> 31 < j')"
    using c by (simp add: not_less)
  from extract_boxed_last_boxed [of two_boxes 19 31] a b c d e show ?thesis by simp
qed

lemma extract_boxed_no_pairs:
  assumes nuc: "no_unmatched_close s" and np: "\<forall>i j. \<not> boxed_pair s i j"
  shows "extract_boxed s = (case re_search_boxed s of Some tok \<Rightarrow> tok | None \<Rightarrow> '''')"
proof -
  from scan_complete [OF nuc] obtain bs where sc: "scan_from s 0 [] [] = Some bs"
    and bi: "boxed_inv s (length s) bs"
    by blast
  have "bs = []"
  proof (rule ccontr)
    assume "bs \<noteq> []"
    with bi obtain i j where "boxed_pair s i j" by (simp add: boxed_inv_def) blast
    with np show False by blast
  qed
  with sc show ?thesis by (simp add: extract_boxed_def)
qed

text \<open>
  Claim C7. For a text with no unmatched closing brace and no boxed pair, so that the scan
  ends without a candidate, \<open>extract_boxed\<close> returns the token captured by the search for
  the marker, whitespace and an alphanumeric token, and the empty string when the search
  finds nothing. In particular \<open>extract_boxed("\\boxed 5 end")\<close> is \<open>"5"\<close> and
  \<open>extract_boxed("no box here")\<close> is the empty string.
\<close>

theorem extract_boxed_fallback:
  "(no_unmatched_close text \<and> (\<forall>i j. \<not> boxed_pair text i j)
    \<longrightarrow> extract_boxed text = (case re_search_boxed text of Some tok \<Rightarrow> tok | None \<Rightarrow> '''')) \<and>
   extract_boxed (CHR 0x5C # ''boxed 5 end'') = ''5'' \<and>
   extract_boxed ''no box here'' = ''''"
proof (intro conjI impI)
  assume "no_unmatched_close text \<and> (\<forall>i j. \<not> boxed_pair text i j)"
  then show "extract_boxed text = (case re_search_boxed text of Some tok \<Rightarrow> tok | None \<Rightarrow> '''')"
    using extract_boxed_no_pairs by blast
next
  show "extract_boxed (CHR 0x5C # ''boxed 5 end'') = ''5''" by code_simp
next
  show "extract_boxed ''no box here'' = ''''" by code_simp
qed

lemma no_brace_no_pair:
  assumes "CHR ''{'' \<notin> set s"
  shows "\<not> boxed_pair s i j"
proof
  assume "boxed_pair s i j"
  then have "i < length s" "s ! i = CHR ''{''" by (simp_all add: boxed_pair_def matched_def)
  then have "CHR ''{'' \<in> set s" by (metis nth_mem)
  with assms show False by simp
qed

text \<open>The hypotheses of C7 on a text without braces.\<close>

theorem extract_boxed_fallback_witness:
  "no_unmatched_close (CHR 0x5C # ''boxed  x1 = 7'') \<and>
   (\<forall>i j. \<not> boxed_pair (CHR 0x5C # ''boxed  x1 = 7'') i j) \<and>
   re_search_boxed (CHR 0x5C # ''boxed  x1 = 7'') = Some ''x1'' \<and>
   extract_boxed (CHR 0x5C # ''boxed  x1 = 7'') = ''x1''"
proof -
  have a: "no_unmatched_close (CHR 0x5C # ''boxed  x1 = 7'')"
    by (simp add: no_unmatched_close_depth brace_delta_def)
  have b: "\<forall>i j. \<not> boxed_pair (CHR 0x5C # ''boxed  x1 = 7'') i j"
    by (intro allI no_brace_no_pair) simp
  have c: "re_search_boxed (CHR 0x5C # ''boxed  x1 = 7'') = Some ''x1''" by code_simp
  from extract_boxed_fallback [of "CHR 0x5C # ''boxed  x1 = 7''"] a b c show ?thesis by simp
qed

section \<open>compute_score and the scoring loop\<close>

lemma compute_score_Raised:
  assumes "verify_func [boxed_marker @ ''{'' @ ground_truth @ ''}'']
             [boxed_marker @ ''{'' @ extract_boxed model_output @ ''}''] = Raised e"
  shows "compute_score verify_func model_output ground_truth timeout_score =
     (if isinstance e Exception then Inr 0
      else if isinstance e TimeoutException then Inr timeout_score else Inl e)"
  using assms by (simp add: compute_score_def)

text \<open>
  Claim C2. For every model output, ground truth and \<open>timeout_score\<close>, when the
  verification raises the verifier's \<open>TimeoutException\<close>, \<open>compute_score\<close> returns
  exactly \<open>timeout_score\<close>; so does it for any exception of that class that is not an
  \<open>Exception\<close>. In the scoring loop, where \<open>timeout_score\<close> is left at its default, the
  score is 0.
\<close>

theorem compute_score_timeout_score:
  "(verify_func [boxed_marker @ ''{'' @ ground_truth @ ''}'']
      [boxed_marker @ ''{'' @ extract_boxed model_output @ ''}''] = Raised timeout_exception
    \<longrightarrow> compute_score verify_func model_output ground_truth timeout_score = Inr timeout_score \<and>
        score_response verify_func extract_answer math_equal False model_output ground_truth
          = Inr 0) \<and>
   (verify_func [boxed_marker @ ''{'' @ ground_truth @ ''}'']
      [boxed_marker @ ''{'' @ extract_boxed model_output @ ''}''] = Raised e \<and>
    isinstance e TimeoutException \<and> \<not> isinstance e Exception
    \<longrightarrow> compute_score verify_func model_output ground_truth timeout_score = Inr timeout_score)"
  by (simp add: compute_score_Raised score_response_def isinstance_def timeout_exception_def)

text \<open>The hypothesis of C2 for a verifier that times out, with \<open>timeout_score = 0.5\<close>.\<close>

theorem compute_score_timeout_score_witness:
  "raising_timeout [boxed_marker @ ''{'' @ ''1'' @ ''}'']
     [boxed_marker @ ''{'' @ extract_boxed (CHR 0x5C # ''boxed{1}'') @ ''}'']
     = Raised timeout_exception \<and>
   compute_score raising_timeout (CHR 0x5C # ''boxed{1}'') ''1'' (1 / 2) = Inr (1 / 2)"
proof -
  have a: "raising_timeout [boxed_marker @ ''{'' @ ''1'' @ ''}'']
     [boxed_marker @ ''{'' @ extract_boxed (CHR 0x5C # ''boxed{1}'') @ ''}'']
     = Raised timeout_exception"
    by (simp add: raising_timeout_def)
  from compute_score_timeout_score [of raising_timeout "''1''" "CHR 0x5C # ''boxed{1}''" "1 / 2"] a
  show ?thesis by blast
qed

text \<open>
  Claim C10, amended. Whatever the model output, the ground truth and \<open>timeout_score\<close>,
  when the verification call raises an exception that is an instance of \<open>Exception\<close>,
  \<open>compute_score\<close> returns exactly \<open>0.0\<close>, for every value of \<open>timeout_score\<close>: the
  handler \<open>except Exception\<close> comes first and leaves \<open>ret_score\<close> as it was.
\<close>

theorem compute_score_exception_zero:
  "verify_func [boxed_marker @ ''{'' @ ground_truth @ ''}'']
     [boxed_marker @ ''{'' @ extract_boxed model_output @ ''}''] = Raised e \<and>
   isinstance e Exception
   \<longrightarrow> (\<forall>timeout_score.
          compute_score verify_func model_output ground_truth timeout_score = Inr 0)"
  by (simp add: compute_score_Raised)

text \<open>The hypotheses of C10 for a verifier that fails with a \<open>ValueError\<close>.\<close>

theorem compute_score_exception_zero_witness:
  "failing_on_bad [boxed_marker @ ''{'' @ ''4'' @ ''}'']
     [boxed_marker @ ''{'' @ extract_boxed (CHR 0x5C # ''boxed{bad}'') @ ''}'']
     = Raised value_error \<and>
   isinstance value_error Exception \<and>
   compute_score failing_on_bad (CHR 0x5C # ''boxed{bad}'') ''4'' 7 = Inr 0"
proof -
  have a: "failing_on_bad [boxed_marker @ ''{'' @ ''4'' @ ''}'']
     [boxed_marker @ ''{'' @ extract_boxed (CHR 0x5C # ''boxed{bad}'') @ ''}'']
     = Raised value_error"
    by code_simp
  have b: "isinstance value_error Exception"
    by (simp add: isinstance_def value_error_def)
  from compute_score_exception_zero [of failing_on_bad "''4''" "CHR 0x5C # ''boxed{bad}''"
      value_error] a b
  show ?thesis by blast
qed

text \<open>
  Claim C10 as stated fails for the timeout it names: the verifier's \<open>TimeoutException\<close>
  is not an \<open>Exception\<close>, the first handler lets it pass, and the second returns
  \<open>timeout_score\<close>, here 7 and not \<open>0.0\<close>.
\<close>

theorem compute_score_timeout_counterexample:
  "compute_score raising_timeout ''so 2'' ''1'' 7 = Inr 7 \<and>
   compute_score raising_timeout ''so 2'' ''1'' 7 \<noteq> Inr 0"
  by (simp add: compute_score_def raising_timeout_def isinstance_def timeout_exception_def)

lemma compute_score_keyboard_interrupt:
  "compute_score (\<lambda>gold pred. Raised keyboard_interrupt :: (real \<times> unit) outcome) m g t
     = Inl keyboard_interrupt"
  by (simp add: compute_score_def isinstance_def keyboard_interrupt_def)

lemma compute_score_total:
  assumes "\<forall>gold pred e. verify_func gold pred = Raised e \<longrightarrow>
             isinstance e Exception \<or> isinstance e TimeoutException"
  shows "\<exists>score. compute_score verify_func model_output ground_truth timeout_score = Inr score"
proof (cases "verify_func [boxed_marker @ ''{'' @ ground_truth @ ''}'']
     [boxed_marker @ ''{'' @ extract_boxed model_output @ ''}'']")
  case (Returned p)
  then show ?thesis by (cases p) (simp add: compute_score_def)
next
  case (Raised e)
  with assms have "isinstance e Exception \<or> isinstance e TimeoutException" by blast
  with Raised show ?thesis by (auto simp: compute_score_Raised)
qed

lemma score_responses_Inr:
  "score_responses vf ea me mm g rs tmp = Inr out \<Longrightarrow>
   \<exists>new. out = tmp @ new \<and> length new = length rs \<and>
     (\<forall>j<length rs. score_response vf ea me mm (rs ! j) g = Inr (new ! j))"
proof (induction rs arbitrary: tmp)
  case Nil
  then show ?case by simp
next
  case (Cons r rs)
  from Cons.prems obtain sc where sc: "score_response vf ea me mm r g = Inr sc"
      and rest: "score_responses vf ea me mm g rs (tmp @ [sc]) = Inr out"
    by (auto split: sum.splits)
  from Cons.IH [OF rest] obtain new where new: "out = (tmp @ [sc]) @ new"
      "length new = length rs"
      "\<forall>j<length rs. score_response vf ea me mm (rs ! j) g = Inr (new ! j)"
    by blast
  have "\<forall>j<length (r # rs). score_response vf ea me mm ((r # rs) ! j) g = Inr ((sc # new) ! j)"
  proof (intro allI impI)
    fix j assume "j < length (r # rs)"
    then show "score_response vf ea me mm ((r # rs) ! j) g = Inr ((sc # new) ! j)"
      using sc new(3) by (cases j) simp_all
  qed
  moreover have "out = tmp @ (sc # new)" "length (sc # new) = length (r # rs)"
    using new by simp_all
  ultimately show ?case by blast
qed

lemma score_samples_Inr:
  "score_samples vf ea me mm ds acc = Inr out \<Longrightarrow>
   \<exists>new. out = acc @ new \<and> length new = length ds \<and>
     (\<forall>i<length ds. score_responses vf ea me mm (gt (ds ! i)) (responses (ds ! i)) [] = Inr (new ! i))"
proof (induction ds arbitrary: acc)
  case Nil
  then show ?case by simp
next
  case (Cons s ds)
  from Cons.prems obtain sc where sc: "score_responses vf ea me mm (gt s) (responses s) [] = Inr sc"
      and rest: "score_samples vf ea me mm ds (acc @ [sc]) = Inr out"
    by (auto split: sum.splits)
  from Cons.IH [OF rest] obtain new where new: "out = (acc @ [sc]) @ new"
      "length new = length ds"
      "\<forall>i<length ds. score_responses vf ea me mm (gt (ds ! i)) (responses (ds ! i)) [] = Inr (new ! i)"
    by blast
  have "\<forall>i<length (s # ds). score_responses vf ea me mm (gt ((s # ds) ! i))
      (responses ((s # ds) ! i)) [] = Inr ((sc # new) ! i)"
  proof (intro allI impI)
    fix i assume "i < length (s # ds)"
    then show "score_responses vf ea me mm (gt ((s # ds) ! i))
      (responses ((s # ds) ! i)) [] = Inr ((sc # new) ! i)"
      using sc new(3) by (cases i) simp_all
  qed
  moreover have "out = acc @ (sc # new)" "length (sc # new) = length (s # ds)"
    using new by simp_all
  ultimately show ?case by blast
qed

lemma score_samples_aligned:
  assumes "score_samples vf ea me mm ds [] = Inr all_scores"
  shows "length all_scores = length ds"
    and "i < length ds \<Longrightarrow> length (all_scores ! i) = length (responses (ds ! i))"
    and "i < length ds \<Longrightarrow> j < length (responses (ds ! i)) \<Longrightarrow>
         score_response vf ea me mm (responses (ds ! i) ! j) (gt (ds ! i)) = Inr (all_scores ! i ! j)"
proof -
  from score_samples_Inr [OF assms] have len: "length all_scores = length ds"
    and each: "\<forall>i<length ds. score_responses vf ea me mm (gt (ds ! i)) (responses (ds ! i)) []
        = Inr (all_scores ! i)"
    by auto
  show "length all_scores = length ds" by (rule len)
  {
    assume i: "i < length ds"
    with each have "score_responses vf ea me mm (gt (ds ! i)) (responses (ds ! i)) []
        = Inr (all_scores ! i)" by blast
    from score_responses_Inr [OF this]
    have r: "length (all_scores ! i) = length (responses (ds ! i))"
      "\<forall>j<length (responses (ds ! i)). score_response vf ea me mm (responses (ds ! i) ! j)
          (gt (ds ! i)) = Inr (all_scores ! i ! j)"
      by auto
    show "length (all_scores ! i) = length (responses (ds ! i))" by (rule r(1))
    show "j < length (responses (ds ! i)) \<Longrightarrow>
         score_response vf ea me mm (responses (ds ! i) ! j) (gt (ds ! i)) = Inr (all_scores ! i ! j)"
      using r(2) by blast
  }
qed

lemma annotate_length [simp]: "length (annotate all_scores ds) = length ds"
  by (simp add: annotate_def)

lemma annotate_nth:
  "i < length ds \<Longrightarrow> annotate all_scores ds ! i = (ds ! i)\<lparr>scores := Some (all_scores ! i)\<rparr>"
  by (simp add: annotate_def nth_enumerate_eq)

lemma mm_demo: "contains ''minerva_math'' (py_lower (dataset_path demo_args)) = False"
  by code_simp

lemma mm_minerva: "contains ''minerva_math'' (py_lower (dataset_path minerva_args)) = True"
  by code_simp

lemma demo_scores:
  "score_samples failing_on_bad extract_answer_id math_equal_strict False demo_ds [] = Inr [[1, 0], [0, 1]]"
  by code_simp

lemma minerva_abort:
  "score_samples failing_on_bad extract_answer_id math_equal_strict True minerva_ds [] = Inl value_error"
  by code_simp

lemma ragged_scores:
  "score_samples failing_on_bad extract_answer_id math_equal_strict False ragged_ds [] = Inr [[1], [0, 1]]"
  by code_simp

lemma score_responses_general_total:
  assumes "\<forall>gold pred e. vf gold pred = Raised e \<longrightarrow>
             isinstance e Exception \<or> isinstance e TimeoutException"
  shows "\<exists>out. score_responses vf ea me False g rs tmp = Inr out"
proof (induction rs arbitrary: tmp)
  case Nil
  show ?case by simp
next
  case (Cons r rs)
  from compute_score_total [OF assms] obtain sc where "compute_score vf r g 0 = Inr sc"
    by blast
  then have "score_response vf ea me False r g = Inr sc" by (simp add: score_response_def)
  with Cons.IH [of "tmp @ [sc]"] show ?case by simp
qed

lemma score_samples_general_total:
  assumes "\<forall>gold pred e. vf gold pred = Raised e \<longrightarrow>
             isinstance e Exception \<or> isinstance e TimeoutException"
  shows "\<exists>out. score_samples vf ea me False ds acc = Inr out"
proof (induction ds arbitrary: acc)
  case Nil
  show ?case by simp
next
  case (Cons s ds)
  from score_responses_general_total [OF assms] obtain sc
    where "score_responses vf ea me False (gt s) (responses s) [] = Inr sc"
    by blast
  with Cons.IH [of "acc @ [sc]"] show ?case by simp
qed

text \<open>
  Claim C1 says that an exception raised while scoring one response never aborts the
  scoring of the others, under either strategy. Under the \<open>minerva_math\<close> strategy the
  call of the grader stands in the loop with no handler: when the grader raises on one
  response, the loops end with that exception, no score list is produced and the record
  file is never opened.
\<close>

theorem minerva_failure_aborts_run:
  "score_samples failing_on_bad extract_answer_id math_equal_strict True minerva_ds []
     = Inl value_error \<and>
   (\<forall>array_mean round_float str_float.
      main failing_on_bad extract_answer_id math_equal_strict array_mean round_float str_float
        minerva_args minerva_ds
     = \<lparr>raised = Some value_error, record_file = None, score_file = None\<rparr>)"
proof -
  have a: "score_samples failing_on_bad extract_answer_id math_equal_strict True minerva_ds []
     = Inl value_error"
    by code_simp
  then show ?thesis by (simp add: main_def mm_minerva)
qed

text \<open>
  Claim C4. When the scoring loop completes, there is one score list per sample, and for
  every sample the list has the length of its responses, its entry at position \<open>j\<close> is
  the score of the response at position \<open>j\<close>, and it is the value the annotated sample
  carries in \<open>scores\<close> beside the unchanged responses.
\<close>

theorem scores_aligned_with_responses:
  "score_samples vf ea me mm ds [] = Inr all_scores \<and> i < length ds
   \<longrightarrow> length all_scores = length ds \<and>
       length (all_scores ! i) = length (responses (ds ! i)) \<and>
       (\<forall>j<length (responses (ds ! i)).
          score_response vf ea me mm (responses (ds ! i) ! j) (gt (ds ! i))
            = Inr (all_scores ! i ! j)) \<and>
       scores (annotate all_scores ds ! i) = Some (all_scores ! i) \<and>
       responses (annotate all_scores ds ! i) = responses (ds ! i)"
proof
  assume h: "score_samples vf ea me mm ds [] = Inr all_scores \<and> i < length ds"
  then have s: "score_samples vf ea me mm ds [] = Inr all_scores" and i: "i < length ds"
    by simp_all
  note al = score_samples_aligned [OF s]
  have "\<forall>j<length (responses (ds ! i)).
          score_response vf ea me mm (responses (ds ! i) ! j) (gt (ds ! i))
            = Inr (all_scores ! i ! j)"
    using al(3) [OF i] by blast
  then show "length all_scores = length ds \<and>
       length (all_scores ! i) = length (responses (ds ! i)) \<and>
       (\<forall>j<length (responses (ds ! i)).
          score_response vf ea me mm (responses (ds ! i) ! j) (gt (ds ! i))
            = Inr (all_scores ! i ! j)) \<and>
       scores (annotate all_scores ds ! i) = Some (all_scores ! i) \<and>
       responses (annotate all_scores ds ! i) = responses (ds ! i)"
    using al(1) al(2) [OF i] i by (simp add: annotate_nth)
qed

text \<open>The hypotheses of C4 on a dataset of two samples with two responses each.\<close>

theorem scores_aligned_with_responses_witness:
  "score_samples failing_on_bad extract_answer_id math_equal_strict False demo_ds []
     = Inr [[1, 0], [0, 1]] \<and>
   (1::nat) < length demo_ds \<and>
   length (responses (demo_ds ! 1)) = 2 \<and>
   scores (annotate [[1, 0], [0, 1]] demo_ds ! 1) = Some [0, 1] \<and>
   score_response failing_on_bad extract_answer_id math_equal_strict False
     (responses (demo_ds ! 1) ! 1) (gt (demo_ds ! 1)) = Inr 1"
proof -
  have l: "(1::nat) < length demo_ds" by (simp add: demo_ds_def)
  from scores_aligned_with_responses [of failing_on_bad extract_answer_id math_equal_strict
      False demo_ds "[[1, 0], [0, 1]]" 1] demo_scores l
  have c: "length ([[1, 0], [0, 1 :: real]] ! 1) = length (responses (demo_ds ! 1))"
      "\<forall>j<length (responses (demo_ds ! 1)).
          score_response failing_on_bad extract_answer_id math_equal_strict False
            (responses (demo_ds ! 1) ! j) (gt (demo_ds ! 1)) = Inr ([[1, 0], [0, 1]] ! 1 ! j)"
      "scores (annotate [[1, 0], [0, 1]] demo_ds ! 1) = Some ([[1, 0], [0, 1]] ! 1)"
    by blast+
  from c(1) have n: "length (responses (demo_ds ! 1)) = 2" by simp
  with c(2) have "score_response failing_on_bad extract_answer_id math_equal_strict False
            (responses (demo_ds ! 1) ! 1) (gt (demo_ds ! 1)) = Inr ([[1, 0], [0, 1]] ! 1 ! 1)"
    by simp
  with demo_scores l n c(3) show ?thesis by simp
qed

section \<open>The summary record\<close>

lemma np_mean_ragged: "\<not> rectangular rows \<Longrightarrow> np_mean array_mean rows = Inl value_error"
  by (simp add: np_mean_def)

lemma np_mean_rectangular: "rectangular rows \<Longrightarrow> np_mean array_mean rows = Inr (array_mean rows)"
  by (simp add: np_mean_def)

lemma main_completed:
  assumes s: "score_samples vf ea me (contains ''minerva_math'' (py_lower (dataset_path args))) ds []
      = Inr all_scores"
    and r: "rectangular all_scores"
  shows "main vf ea me array_mean round_float str_float args ds =
     \<lparr>raised = None,
      record_file = Some (dataset_path args @ '' '' @
                          str_float (round_float (array_mean all_scores) 4) @ [CHR 0x0A]),
      score_file = (if save_score args
                    then Some (score_path (dataset_path args), annotate all_scores ds)
                    else None)\<rparr>"
  using s np_mean_rectangular [OF r, of array_mean] by (simp add: main_def Let_def)

lemma main_ragged:
  assumes s: "score_samples vf ea me (contains ''minerva_math'' (py_lower (dataset_path args))) ds []
      = Inr all_scores"
    and r: "\<not> rectangular all_scores"
  shows "main vf ea me array_mean round_float str_float args ds =
     \<lparr>raised = Some value_error, record_file = Some [], score_file = None\<rparr>"
  using s np_mean_ragged [OF r, of array_mean] by (simp add: main_def Let_def)

lemma ragged_not_rect: "\<not> rectangular [[1], [0, 1 :: real]]"
  by (simp add: rectangular_def)

text \<open>
  Claim C3 says that the summary line holds the mean of all scores for every input
  collection, samples with differing numbers of responses included. On a dataset whose
  samples have one and two responses the loop completes with the scores 1 and 0, 1, and
  then \<open>np.mean\<close> raises on the ragged list of lists, after the record file was opened:
  the file is left empty, no summary line is written and the run ends with the exception,
  whatever the floating-point operations are.
\<close>

theorem ragged_scores_leave_no_summary:
  "score_samples failing_on_bad extract_answer_id math_equal_strict False ragged_ds []
     = Inr [[1], [0, 1]] \<and>
   (\<forall>array_mean round_float str_float.
      main failing_on_bad extract_answer_id math_equal_strict array_mean round_float str_float
        demo_args ragged_ds
      = \<lparr>raised = Some value_error, record_file = Some [], score_file = None\<rparr>)"
proof (intro conjI allI)
  show "score_samples failing_on_bad extract_answer_id math_equal_strict False ragged_ds []
     = Inr [[1], [0, 1]]"
    by (rule ragged_scores)
next
  fix array_mean :: "real list list \<Rightarrow> 'f" and round_float :: "'f \<Rightarrow> nat \<Rightarrow> 'f"
    and str_float :: "'f \<Rightarrow> string"
  have a: "score_samples failing_on_bad extract_answer_id math_equal_strict
     (contains ''minerva_math'' (py_lower (dataset_path demo_args))) ragged_ds []
     = Inr [[1], [0, 1]]"
    using ragged_scores by (simp only: mm_demo)
  show "main failing_on_bad extract_answer_id math_equal_strict array_mean round_float str_float
        demo_args ragged_ds
      = \<lparr>raised = Some value_error, record_file = Some [], score_file = None\<rparr>"
    by (rule main_ragged [OF a ragged_not_rect])
qed

section \<open>The annotated file\<close>

lemma contains_Cons: "contains sub cs \<Longrightarrow> contains sub (c # cs)"
  by simp

lemma contains_prefix: "prefix sub s \<Longrightarrow> contains sub s"
  by (cases s) simp_all

lemma before_first_append_sep:
  assumes "sep \<noteq> []"
  shows "\<not> contains sep (butlast (xs @ sep)) \<Longrightarrow> before_first sep (xs @ sep) = xs"
proof (induction xs)
  case Nil
  from assms obtain c cs where "sep = c # cs" by (cases sep) auto
  then show ?case by simp
next
  case (Cons x xs)
  have bl: "butlast ((x # xs) @ sep) = x # butlast (xs @ sep)"
    using assms by simp
  have np: "\<not> prefix sep ((x # xs) @ sep)"
  proof
    assume p: "prefix sep ((x # xs) @ sep)"
    have "length sep \<le> length (butlast ((x # xs) @ sep))" by simp
    moreover have "prefix (butlast ((x # xs) @ sep)) ((x # xs) @ sep)"
      by (rule prefixeq_butlast)
    ultimately have "prefix sep (butlast ((x # xs) @ sep))"
      using p by (metis prefix_length_prefix)
    then have "contains sep (butlast ((x # xs) @ sep))" by (rule contains_prefix)
    with Cons.prems show False by simp
  qed
  have "\<not> contains sep (butlast (xs @ sep))"
    using Cons.prems bl by (metis contains_Cons)
  from Cons.IH [OF this] np show ?case by simp
qed

lemma before_first_absent: "\<not> contains sep s \<Longrightarrow> before_first sep s = s"
  by (induction s) auto

lemma score_path_jsonl:
  "\<not> contains ''.jsonl'' (butlast (stem @ ''.jsonl'')) \<Longrightarrow>
   score_path (stem @ ''.jsonl'') = stem @ ''_score.jsonl''"
  using before_first_append_sep [of "''.jsonl''" stem] by (simp add: score_path_def)

lemma demo_rect: "rectangular [[1, 0], [0, 1 :: real]]"
  by (simp add: rectangular_def)

text \<open>
  Claim C9 says that the annotated file is written at the input identifier with its final
  extension replaced by a score-suffixed variant. The code cuts the path at its first
  occurrence of \<open>.jsonl\<close>, not at its final extension: for the dataset
  \<open>runs.jsonl/part0.jsonl\<close> the annotated file is written to \<open>runs_score.jsonl\<close>,
  outside the directory \<open>runs.jsonl/\<close> of the input.
\<close>

theorem score_file_leaves_directory:
  "(\<forall>array_mean round_float str_float.
      map_option fst (score_file
        (main failing_on_bad extract_answer_id math_equal_strict array_mean round_float
           str_float nested_args demo_ds))
      = Some ''runs_score.jsonl'') \<and>
   dir_part (dataset_path nested_args) = ''runs.jsonl/'' \<and>
   \<not> prefix (dir_part (dataset_path nested_args)) ''runs_score.jsonl''"
proof (intro conjI allI)
  fix array_mean :: "real list list \<Rightarrow> 'f" and round_float :: "'f \<Rightarrow> nat \<Rightarrow> 'f"
    and str_float :: "'f \<Rightarrow> string"
  have mm: "contains ''minerva_math'' (py_lower (dataset_path nested_args)) = False"
    by code_simp
  have s: "score_samples failing_on_bad extract_answer_id math_equal_strict
     (contains ''minerva_math'' (py_lower (dataset_path nested_args))) demo_ds []
     = Inr [[1, 0], [0, 1]]"
    using demo_scores by (simp only: mm)
  have p: "score_path (dataset_path nested_args) = ''runs_score.jsonl''" by code_simp
  from main_completed [OF s demo_rect, of array_mean round_float str_float] p
  show "map_option fst (score_file
        (main failing_on_bad extract_answer_id math_equal_strict array_mean round_float
           str_float nested_args demo_ds))
      = Some ''runs_score.jsonl''"
    by (simp add: nested_args_def)
next
  show "dir_part (dataset_path nested_args) = ''runs.jsonl/''" by code_simp
next
  show "\<not> prefix (dir_part (dataset_path nested_args)) ''runs_score.jsonl''" by code_simp
qed

section \<open>The merge\<close>

lemma shuffle_loop_length [simp]: "length (shuffle_loop rnd k x) = length x"
  by (induction k arbitrary: x) (simp_all add: Let_def)

lemma shuffle_loop_mset: "k < length x \<Longrightarrow> mset (shuffle_loop rnd k x) = mset x"
proof (induction k arbitrary: x)
  case 0
  show ?case by simp
next
  case (Suc k)
  let ?i = "Suc k"
  let ?j = "rnd ?i mod (?i + 1)"
  let ?y = "x[?i := x ! ?j, ?j := x ! ?i]"
  have j: "?j < length x"
  proof -
    have "?j < ?i + 1" by (rule mod_less_divisor) simp
    with Suc.prems show ?thesis by linarith
  qed
  have "mset (shuffle_loop rnd k ?y) = mset ?y"
    using Suc.prems by (intro Suc.IH) simp
  also have "mset ?y = mset x"
    using j Suc.prems by (rule mset_swap [of ?j x ?i])
  finally show ?case by (simp add: Let_def)
qed

lemma shuffle_mset [simp]: "mset (shuffle rnd x) = mset x"
proof (cases x)
  case Nil
  then show ?thesis by (simp add: shuffle_def)
next
  case (Cons a as)
  then have "length x - 1 < length x" by simp
  then show ?thesis unfolding shuffle_def by (rule shuffle_loop_mset)
qed

lemma shuffle_length [simp]: "length (shuffle rnd x) = length x"
  by (simp add: shuffle_def)




end
